theory Spec2Isabelle
  imports Main
begin

section \<open>The game: class Game of main.py\<close>

text \<open>
  The exceptions the modelled code can raise. Both assertions of \<open>Game\<close> raise
  AssertionError (the second one with the message "Illegal move"); \<open>max\<close> raises TypeError
  on \<open>None\<close> and ValueError on an empty list.
\<close>

datatype error = AssertionError string | TypeError | ValueError

text \<open>
  The two player identifiers, the class constants \<open>DUPLICATOR_ID = 0\<close> and
  \<open>SPOILER_ID = 1\<close>. The turn is passed on with \<open>(next_player + 1) % 2\<close> on the identifiers.
\<close>

datatype player = DUPLICATOR | SPOILER

fun player_id :: "player \<Rightarrow> int" where
  "player_id DUPLICATOR = 0"
| "player_id SPOILER = 1"

definition player_of_id :: "int \<Rightarrow> player" where
  "player_of_id n = (if n = 0 then DUPLICATOR else SPOILER)"

text \<open>
  The fields of a \<open>Game\<close> object. The log file and the messages written to it and to the
  terminal are input/output and are not part of the model.
\<close>

record Game =
  next_player :: player
  winner :: "player option"
  current_position :: int
  initial_position :: int
  final_position :: int
  max_move :: int

text \<open>\<open>Game.__init__\<close>: the fields are set, then \<open>assert initial_position >= 1\<close>.\<close>

definition Game_init :: "int \<Rightarrow> int \<Rightarrow> int \<Rightarrow> int \<Rightarrow> error + Game" where
  "Game_init day month year initial_pos =
     (let self = \<lparr> next_player = DUPLICATOR,
                   winner = None,
                   current_position = initial_pos,
                   initial_position = initial_pos,
                   final_position = day + month + year,
                   max_move = day + month \<rparr>
      in if initial_pos \<ge> 1 then Inr self else Inl (AssertionError []))"

text \<open>
  \<open>Game.perform_move\<close>. The object outlives a raised exception, so the model returns the
  outcome of the call together with the object as the call leaves it.
\<close>

definition perform_move :: "Game \<Rightarrow> int \<Rightarrow> (error + unit) \<times> Game" where
  "perform_move self move =
     (if winner self \<noteq> None then (Inl (AssertionError []), self)
      else if \<not> (move \<ge> 1 \<and> move \<le> max_move self
                 \<and> current_position self + move \<le> final_position self)
      then (Inl (AssertionError ''Illegal move''), self)
      else
        let s1 = self\<lparr>current_position := current_position self + move\<rparr>;
            s2 = (if current_position s1 = final_position s1
                  then s1\<lparr>winner := Some (next_player s1)\<rparr> else s1);
            s3 = s2\<lparr>next_player := player_of_id ((player_id (next_player s2) + 1) mod 2)\<rparr>
        in (Inr (), s3))"

text \<open>
  A sequence of calls of \<open>perform_move\<close> on one object, as the play loop makes them; an
  exception ends the sequence.
\<close>

fun perform_moves :: "Game \<Rightarrow> int list \<Rightarrow> (error + unit) \<times> Game" where
  "perform_moves self [] = (Inr (), self)"
| "perform_moves self (move # moves) =
     (case perform_move self move of
        (Inl e, self') \<Rightarrow> (Inl e, self')
      | (Inr u, self') \<Rightarrow> perform_moves self' moves)"

section \<open>The strategy: class SpoilerBot of main.py\<close>

datatype game_mode = Random_mode | Smart_mode | Advisor_mode

record SpoilerBot =
  game :: Game
  play_mode :: game_mode
  winning_strategy :: "int set"
  winning_moves :: "int \<Rightarrow> int list option"

text \<open>Python's \<open>range(a, b)\<close> with step 1: the integers from \<open>a\<close> up to \<open>b - 1\<close>.\<close>

definition range_py :: "int \<Rightarrow> int \<Rightarrow> int list" where
  "range_py a b = [a..b - 1]"

text \<open>\<open>xs or []\<close> applied to the result of \<open>dict.get\<close>.\<close>

definition or_empty :: "int list option \<Rightarrow> int list" where
  "or_empty r = (case r of None \<Rightarrow> [] | Some xs \<Rightarrow> (if xs = [] then [] else xs))"

text \<open>
  Lines 202 to 207: the loop over \<open>potential_opponent_next_position\<close> that leaves at the
  first position outside \<open>winning_strategy\<close>.
\<close>

fun all_winning_loop :: "int set \<Rightarrow> int list \<Rightarrow> bool" where
  "all_winning_loop ws [] = True"
| "all_winning_loop ws (p # ps) = (if p \<notin> ws then False else all_winning_loop ws ps)"

definition all_winning :: "Game \<Rightarrow> int set \<Rightarrow> int \<Rightarrow> bool" where
  "all_winning g ws opponent_position =
     all_winning_loop ws
       (range_py (opponent_position + 1) (opponent_position + max_move g + 1))"

text \<open>Lines 212 and 213: \<open>opponent_position\<close> is appended to the moves of every \<open>x\<close>.\<close>

fun add_moves :: "int \<Rightarrow> int list \<Rightarrow> (int \<Rightarrow> int list option) \<Rightarrow> (int \<Rightarrow> int list option)" where
  "add_moves opponent_position [] wm = wm"
| "add_moves opponent_position (x # xs) wm =
     add_moves opponent_position xs (wm(x \<mapsto> or_empty (wm x) @ [opponent_position]))"

text \<open>
  Lines 200 to 214, the body of the loop over \<open>opponent_position\<close>. It reads
  \<open>winning_strategy\<close> and updates \<open>new_positions\<close>, \<open>winning_moves\<close> and
  \<open>updated_strategy\<close>.
\<close>

type_synonym scan = "int set \<times> (int \<Rightarrow> int list option) \<times> bool"

definition visit_opponent :: "Game \<Rightarrow> int set \<Rightarrow> int \<Rightarrow> scan \<Rightarrow> scan" where
  "visit_opponent g ws opponent_position acc =
     (case acc of (new_positions, wm, updated_strategy) \<Rightarrow>
        if opponent_position < initial_position g \<or> opponent_position \<in> ws then acc
        else if all_winning g ws opponent_position
        then (new_positions \<union>
                set (range_py (max (initial_position g) (opponent_position - max_move g))
                       opponent_position),
              add_moves opponent_position
                (range_py (opponent_position - max_move g) opponent_position) wm,
              True)
        else acc)"

text \<open>Lines 199 to 214, the body of the loop over \<open>i\<close>.\<close>

definition visit_previous :: "Game \<Rightarrow> int set \<Rightarrow> int \<Rightarrow> scan \<Rightarrow> scan" where
  "visit_previous g ws i acc =
     fold (visit_opponent g ws) (range_py (max (initial_position g) (i - max_move g)) i) acc"

text \<open>
  Lines 196 to 214, one pass of the \<open>while\<close> loop up to the end of the loop over
  \<open>previous_positions\<close>. Python does not fix the order in which a set is enumerated; the
  parameter \<open>iter\<close> gives, for a set, the list of its elements in the order of
  enumeration.
\<close>

definition scan_pass ::
  "(int set \<Rightarrow> int list) \<Rightarrow> Game \<Rightarrow> int set \<Rightarrow> int set \<Rightarrow> (int \<Rightarrow> int list option) \<Rightarrow> scan" where
  "scan_pass iter g previous_positions ws wm =
     fold (visit_previous g ws) (iter previous_positions) ({}, wm, False)"

text \<open>
  The \<open>while True\<close> loop of \<open>find_winning_strategy\<close>. A run that never reaches the
  \<open>break\<close> has the value \<open>None\<close>.
\<close>

partial_function (option) backward_induction ::
  "(int set \<Rightarrow> int list) \<Rightarrow> Game \<Rightarrow> int set \<Rightarrow> int set \<Rightarrow> (int \<Rightarrow> int list option)
     \<Rightarrow> (int set \<times> (int \<Rightarrow> int list option)) option" where
  "backward_induction iter g previous_positions ws wm =
     (case scan_pass iter g previous_positions ws wm of
        (new_positions, wm', updated_strategy) \<Rightarrow>
          if \<not> updated_strategy then Some (ws \<union> new_positions, wm')
          else backward_induction iter g new_positions (ws \<union> new_positions) wm')"

declare backward_induction.simps [code]

definition find_winning_strategy :: "(int set \<Rightarrow> int list) \<Rightarrow> SpoilerBot \<Rightarrow> SpoilerBot option" where
  "find_winning_strategy iter self =
     map_option (\<lambda>(ws, wm). self\<lparr>winning_strategy := ws, winning_moves := wm\<rparr>)
       (backward_induction iter (game self) (winning_strategy self)
          (winning_strategy self) (winning_moves self))"

text \<open>
  \<open>SpoilerBot.__init__\<close>: the game is created, the positions within one move of the final
  position are entered with the final position as their move, and the backward induction
  is run. The outer \<open>option\<close> is \<open>None\<close> when the construction does not return.
\<close>

definition SpoilerBot_init ::
  "(int set \<Rightarrow> int list) \<Rightarrow> int \<Rightarrow> int \<Rightarrow> int \<Rightarrow> int \<Rightarrow> game_mode \<Rightarrow> (error + SpoilerBot) option" where
  "SpoilerBot_init iter day month year initial_pos mode =
     (case Game_init day month year initial_pos of
        Inl e \<Rightarrow> Some (Inl e)
      | Inr g \<Rightarrow>
          let ws = set (range_py (max (final_position g - max_move g) initial_pos)
                          (final_position g));
              wm = (\<lambda>x. if x \<in> ws then Some [final_position g] else None)
          in map_option Inr
               (find_winning_strategy iter
                  \<lparr> game = g, play_mode = mode, winning_strategy = ws, winning_moves = wm \<rparr>))"

text \<open>Python's \<open>max\<close> of a list.\<close>

definition max_py :: "int list option \<Rightarrow> error + int" where
  "max_py r = (case r of None \<Rightarrow> Inl TypeError
               | Some [] \<Rightarrow> Inl ValueError
               | Some (x # xs) \<Rightarrow> Inr (fold max xs x))"

text \<open>\<open>SpoilerBot.pick_smart_move\<close>; \<open>d or None\<close> is \<open>None\<close> when \<open>d\<close> is zero.\<close>

definition pick_smart_move :: "SpoilerBot \<Rightarrow> error + int option" where
  "pick_smart_move self =
     (if current_position (game self) \<in> winning_strategy self
      then (case max_py (winning_moves self (current_position (game self))) of
              Inl e \<Rightarrow> Inl e
            | Inr m \<Rightarrow> (let d = m - current_position (game self)
                        in Inr (if d = 0 then None else Some d)))
      else Inr None)"

section \<open>Invariants\<close>

text \<open>
  The invariant of the data model: the current position lies between the initial and the
  final position, and there is a winner exactly at the final position.
\<close>

definition game_inv :: "Game \<Rightarrow> bool" where
  "game_inv g \<longleftrightarrow>
     initial_position g \<le> current_position g \<and> current_position g \<le> final_position g
     \<and> (winner g \<noteq> None \<longleftrightarrow> current_position g = final_position g)"

text \<open>
  A position that passes the tests of lines 200 and 208: it is at or above the initial
  position, not in \<open>winning_strategy\<close>, and every move from it ends in
  \<open>winning_strategy\<close>.
\<close>

definition losing :: "Game \<Rightarrow> int set \<Rightarrow> int \<Rightarrow> bool" where
  "losing g ws p \<longleftrightarrow> \<not> (p < initial_position g \<or> p \<in> ws) \<and> all_winning g ws p"

text \<open>The opponent positions that one pass visits, in the order of the visits.\<close>

definition scanned :: "Game \<Rightarrow> int list \<Rightarrow> int list" where
  "scanned g ps = concat (map (\<lambda>i. range_py (max (initial_position g) (i - max_move g)) i) ps)"

text \<open>The moves that one pass enters into \<open>winning_moves\<close>.\<close>

definition record_moves ::
  "Game \<Rightarrow> int set \<Rightarrow> int list \<Rightarrow> (int \<Rightarrow> int list option) \<Rightarrow> (int \<Rightarrow> int list option)" where
  "record_moves g ws os wm =
     fold (\<lambda>p m. if losing g ws p then add_moves p (range_py (p - max_move g) p) m else m) os wm"

text \<open>The positions that one pass puts into \<open>new_positions\<close>.\<close>

definition found :: "Game \<Rightarrow> int set \<Rightarrow> int set \<Rightarrow> int set" where
  "found g ws os = (\<Union>p\<in>{p \<in> os. losing g ws p}.
      set (range_py (max (initial_position g) (p - max_move g)) p))"

text \<open>The positions entered by \<open>SpoilerBot.__init__\<close> before the loop.\<close>

definition base_window :: "Game \<Rightarrow> int set" where
  "base_window g =
     {max (final_position g - max_move g) (initial_position g)..<final_position g}"

text \<open>
  An entry of \<open>winning_moves\<close> for position \<open>x\<close> is a non-empty list of positions that
  one legal move from \<open>x\<close> reaches.
\<close>

definition moves_ok :: "Game \<Rightarrow> int \<Rightarrow> int list option \<Rightarrow> bool" where
  "moves_ok g x r \<longleftrightarrow>
     (case r of None \<Rightarrow> True
      | Some l \<Rightarrow> l \<noteq> [] \<and> list_all (\<lambda>v. x < v \<and> v \<le> x + max_move g \<and> v \<le> final_position g) l)"

text \<open>The invariant of the \<open>while\<close> loop.\<close>

definition strategy_inv ::
  "Game \<Rightarrow> int set \<Rightarrow> int set \<Rightarrow> (int \<Rightarrow> int list option) \<Rightarrow> bool" where
  "strategy_inv g prev ws wm \<longleftrightarrow>
     prev \<subseteq> ws \<and> ws \<subseteq> {initial_position g..<final_position g}
     \<and> base_window g \<subseteq> ws
     \<and> (\<forall>p\<in>base_window g. wm p = Some [final_position g])
     \<and> (\<forall>p\<in>ws. wm p \<noteq> None)
     \<and> (\<forall>x. moves_ok g x (wm x))"

section \<open>Properties of the game\<close>

lemma toggle_player:
  "player_of_id ((player_id p + 1) mod 2) =
     (case p of DUPLICATOR \<Rightarrow> SPOILER | SPOILER \<Rightarrow> DUPLICATOR)"
  by (cases p) (simp_all add: player_of_id_def)

lemma perform_move_inv:
  assumes "game_inv g" and "perform_move g d = (r, g')"
  shows "game_inv g' \<and> initial_position g' = initial_position g
           \<and> final_position g' = final_position g \<and> max_move g' = max_move g"
  using assms by (auto simp add: perform_move_def game_inv_def Let_def split: if_splits)

lemma perform_moves_inv:
  assumes "game_inv g" and "perform_moves g ms = (r, g')"
  shows "game_inv g' \<and> initial_position g' = initial_position g
           \<and> final_position g' = final_position g \<and> max_move g' = max_move g"
  using assms
proof (induction ms arbitrary: g)
  case Nil
  then show ?case by simp
next
  case (Cons d ms)
  obtain r1 g1 where step: "perform_move g d = (r1, g1)"
    by (cases "perform_move g d")
  from perform_move_inv [OF Cons.prems(1) step]
  have g1: "game_inv g1" "initial_position g1 = initial_position g"
    "final_position g1 = final_position g" "max_move g1 = max_move g"
    by simp_all
  show ?case
  proof (cases r1)
    case (Inl e)
    with Cons.prems(2) step have "g' = g1" by simp
    with g1 show ?thesis by simp
  next
    case (Inr u)
    with Cons.prems(2) step have "perform_moves g1 ms = (r, g')" by simp
    from Cons.IH [OF g1(1) this] g1 show ?thesis by simp
  qed
qed

lemma Game_init_inv:
  assumes "Game_init day month year i = Inr g" and "i < day + month + year"
  shows "game_inv g \<and> initial_position g = i \<and> final_position g = day + month + year
           \<and> max_move g = day + month"
  using assms by (auto simp add: Game_init_def game_inv_def Let_def split: if_splits)

text \<open>
  Claim C6, as the specification states it: on a legal move \<open>perform_move\<close> passes the
  turn on only when the move does not reach the final position. The code does not do so:
  line 162 is outside the \<open>if\<close> and runs after every legal move. At position 9 of 10 the
  Duplicator moves by 1 and wins, and the next player becomes the Spoiler.
\<close>

theorem perform_move_toggles_on_win:
  "winner \<lparr>next_player = DUPLICATOR, winner = None, current_position = 9,
            initial_position = 1, final_position = 10, max_move = 2\<rparr> = None
   \<and> (1::int) \<le> 1 \<and> (1::int) \<le> 2 \<and> (9::int) + 1 \<le> 10
   \<and> perform_move \<lparr>next_player = DUPLICATOR, winner = None, current_position = 9,
                    initial_position = 1, final_position = 10, max_move = 2\<rparr> 1
       = (Inr (), \<lparr>next_player = SPOILER, winner = Some DUPLICATOR, current_position = 10,
                   initial_position = 1, final_position = 10, max_move = 2\<rparr>)
   \<and> SPOILER \<noteq> DUPLICATOR"
  by (simp add: perform_move_def player_of_id_def)

text \<open>
  Claim C6, amended: when there is no winner yet, \<open>1 \<le> move \<le> max_move\<close> and the move
  does not pass the final position, \<open>perform_move\<close> succeeds, adds the move to the current
  position, makes the player who moved the winner exactly when the new position is the
  final position, and passes the turn to the other player in both cases.
\<close>

theorem perform_move_success:
  assumes "winner g = None" and "1 \<le> d" and "d \<le> max_move g"
    and "current_position g + d \<le> final_position g"
  shows "perform_move g d =
           (Inr (), g\<lparr>current_position := current_position g + d,
                      winner := (if current_position g + d = final_position g
                                 then Some (next_player g) else None),
                      next_player := (case next_player g of
                                        DUPLICATOR \<Rightarrow> SPOILER | SPOILER \<Rightarrow> DUPLICATOR)\<rparr>)"
  using assms by (simp add: perform_move_def Let_def toggle_player)

theorem perform_move_success_witness:
  "winner \<lparr>next_player = SPOILER, winner = None, current_position = 5,
            initial_position = 1, final_position = 10, max_move = 2\<rparr> = None
   \<and> (1::int) \<le> 2 \<and> (2::int) \<le> 2 \<and> (5::int) + 2 \<le> 10
   \<and> perform_move \<lparr>next_player = SPOILER, winner = None, current_position = 5,
                    initial_position = 1, final_position = 10, max_move = 2\<rparr> 2
       = (Inr (), \<lparr>next_player = DUPLICATOR, winner = None, current_position = 7,
                   initial_position = 1, final_position = 10, max_move = 2\<rparr>)"
  using perform_move_success [of "\<lparr>next_player = SPOILER, winner = None, current_position = 5,
            initial_position = 1, final_position = 10, max_move = 2\<rparr>" 2]
  by simp

text \<open>
  Claim C7: \<open>perform_move\<close> raises exactly when there is a winner already, or the move is
  outside \<open>[1, max_move]\<close>, or the move passes the final position. Whose turn it is plays
  no part: the outcome is the same for either value of \<open>next_player\<close>, and a second call
  right after a successful one succeeds exactly when the first did not end the game and the
  second move is in range.
\<close>

theorem perform_move_fails_iff:
  "(fst (perform_move g d) \<noteq> Inr ()) =
      (winner g \<noteq> None \<or> d < 1 \<or> max_move g < d
        \<or> final_position g < current_position g + d)
   \<and> fst (perform_move (g\<lparr>next_player := p\<rparr>) d) = fst (perform_move g d)
   \<and> (fst (perform_move g d) = Inr () \<longrightarrow>
        (fst (perform_move (snd (perform_move g d)) d2) = Inr ()) =
          (current_position g + d \<noteq> final_position g \<and> 1 \<le> d2 \<and> d2 \<le> max_move g
            \<and> current_position g + d + d2 \<le> final_position g))"
  by (auto simp add: perform_move_def Let_def)

theorem perform_move_fails_iff_witness:
  "fst (perform_move \<lparr>next_player = DUPLICATOR, winner = None, current_position = 5,
                       initial_position = 1, final_position = 10, max_move = 2\<rparr> 2) = Inr ()
   \<and> fst (perform_move (snd (perform_move
            \<lparr>next_player = DUPLICATOR, winner = None, current_position = 5,
              initial_position = 1, final_position = 10, max_move = 2\<rparr> 2)) 1) = Inr ()
   \<and> fst (perform_move \<lparr>next_player = DUPLICATOR, winner = None, current_position = 5,
                       initial_position = 1, final_position = 10, max_move = 2\<rparr> 3) \<noteq> Inr ()"
  using perform_move_fails_iff [of "\<lparr>next_player = DUPLICATOR, winner = None,
            current_position = 5, initial_position = 1, final_position = 10, max_move = 2\<rparr>"
          2 DUPLICATOR 1]
    perform_move_fails_iff [of "\<lparr>next_player = DUPLICATOR, winner = None,
            current_position = 5, initial_position = 1, final_position = 10, max_move = 2\<rparr>"
          3 DUPLICATOR 1]
  by simp

text \<open>
  Claim C8: a game is constructed with an initial position of at least 1 and below the
  final position; after any sequence of successful calls of \<open>perform_move\<close> the current
  position lies between the initial and the final position, and there is a winner if and
  only if the current position is the final position.
\<close>

theorem position_invariant:
  assumes "1 \<le> i" and "i < day + month + year"
    and "Game_init day month year i = Inr g0"
    and "perform_moves g0 ms = (Inr (), g)"
  shows "initial_position g = i \<and> final_position g = day + month + year
         \<and> initial_position g \<le> current_position g
         \<and> current_position g \<le> final_position g
         \<and> (winner g \<noteq> None \<longleftrightarrow> current_position g = final_position g)"
proof -
  from Game_init_inv [OF assms(3) assms(2)]
  have g0: "game_inv g0" "initial_position g0 = i" "final_position g0 = day + month + year"
    by simp_all
  from perform_moves_inv [OF g0(1) assms(4)] g0
  show ?thesis by (simp add: game_inv_def)
qed

theorem position_invariant_witness:
  "(1::int) \<le> 1 \<and> (1::int) < 1 + 1 + 8
   \<and> Game_init 1 1 8 1 = Inr \<lparr>next_player = DUPLICATOR, winner = None, current_position = 1,
         initial_position = 1, final_position = 10, max_move = 2\<rparr>
   \<and> perform_moves \<lparr>next_player = DUPLICATOR, winner = None, current_position = 1,
         initial_position = 1, final_position = 10, max_move = 2\<rparr> [2, 1, 2, 2, 2]
       = (Inr (), \<lparr>next_player = SPOILER, winner = Some DUPLICATOR, current_position = 10,
         initial_position = 1, final_position = 10, max_move = 2\<rparr>)
   \<and> initial_position \<lparr>next_player = SPOILER, winner = Some DUPLICATOR, current_position = 10,
         initial_position = 1, final_position = 10, max_move = 2\<rparr>
       \<le> current_position \<lparr>next_player = SPOILER, winner = Some DUPLICATOR,
         current_position = 10, initial_position = 1, final_position = 10, max_move = 2\<rparr>
   \<and> (winner \<lparr>next_player = SPOILER, winner = Some DUPLICATOR, current_position = 10,
         initial_position = 1, final_position = 10, max_move = 2\<rparr> \<noteq> None
       \<longleftrightarrow> current_position \<lparr>next_player = SPOILER, winner = Some DUPLICATOR,
         current_position = 10, initial_position = 1, final_position = 10, max_move = 2\<rparr>
         = final_position \<lparr>next_player = SPOILER, winner = Some DUPLICATOR,
         current_position = 10, initial_position = 1, final_position = 10, max_move = 2\<rparr>)"
proof -
  have h1: "(1::int) \<le> 1" and h2: "(1::int) < 1 + 1 + 8"
    by simp_all
  have h3: "Game_init 1 1 8 1 = Inr \<lparr>next_player = DUPLICATOR, winner = None,
      current_position = 1, initial_position = 1, final_position = 10, max_move = 2\<rparr>"
    by (simp add: Game_init_def)
  have h4: "perform_moves \<lparr>next_player = DUPLICATOR, winner = None, current_position = 1,
         initial_position = 1, final_position = 10, max_move = 2\<rparr> [2, 1, 2, 2, 2]
       = (Inr (), \<lparr>next_player = SPOILER, winner = Some DUPLICATOR, current_position = 10,
         initial_position = 1, final_position = 10, max_move = 2\<rparr>)"
    by (simp add: perform_move_def player_of_id_def)
  from position_invariant [OF h1 h2 h3 h4] h1 h2 h3 h4 show ?thesis
    by simp
qed

text \<open>
  Claim C9, as the specification states it: the construction of a game fails when the
  final position is not above the initial position. The code does not check this. For the
  date of birth 1.1.1851 the final position is 1853, the reader of the initial position
  accepts 1853, and the game is constructed.
\<close>

theorem Game_init_accepts_empty_span:
  "((1::int) + 1 + 1851) - 1853 < 1
   \<and> Game_init 1 1 1851 1853
       = Inr \<lparr>next_player = DUPLICATOR, winner = None, current_position = 1853,
              initial_position = 1853, final_position = 1853, max_move = 2\<rparr>"
  by (simp add: Game_init_def)

text \<open>
  Claim C9, amended: the construction of a game fails, with an AssertionError, exactly when
  the initial position is below 1. With an initial position of at least 1 it succeeds for
  every day, month and year, whatever the final position and the maximal move are.
\<close>

theorem Game_init_fails_iff:
  "(Game_init day month year i = Inl (AssertionError [])) = (i < 1)
   \<and> (Game_init day month year i =
        Inr \<lparr>next_player = DUPLICATOR, winner = None, current_position = i,
             initial_position = i, final_position = day + month + year,
             max_move = day + month\<rparr>) = (1 \<le> i)"
  by (simp add: Game_init_def)

theorem Game_init_fails_iff_witness:
  "Game_init 5 3 2000 0 = Inl (AssertionError [])
   \<and> Game_init 0 0 7 7 =
        Inr \<lparr>next_player = DUPLICATOR, winner = None, current_position = 7,
             initial_position = 7, final_position = 7, max_move = 0\<rparr>"
  using Game_init_fails_iff [of 5 3 2000 0] Game_init_fails_iff [of 0 0 7 7]
  by simp

text \<open>
  Claim C10: a call of \<open>perform_move\<close> that raises leaves the object as it was; the current
  position, the winner and the next player are unchanged.
\<close>

theorem perform_move_atomic:
  assumes "fst (perform_move g d) = Inl e"
  shows "snd (perform_move g d) = g
         \<and> current_position (snd (perform_move g d)) = current_position g
         \<and> winner (snd (perform_move g d)) = winner g
         \<and> next_player (snd (perform_move g d)) = next_player g"
  using assms by (auto simp add: perform_move_def Let_def split: if_splits)

theorem perform_move_atomic_witness:
  "fst (perform_move \<lparr>next_player = SPOILER, winner = None, current_position = 9,
                       initial_position = 1, final_position = 10, max_move = 2\<rparr> 2)
     = Inl (AssertionError ''Illegal move'')
   \<and> snd (perform_move \<lparr>next_player = SPOILER, winner = None, current_position = 9,
                       initial_position = 1, final_position = 10, max_move = 2\<rparr> 2)
     = \<lparr>next_player = SPOILER, winner = None, current_position = 9,
                       initial_position = 1, final_position = 10, max_move = 2\<rparr>"
proof -
  have h: "fst (perform_move \<lparr>next_player = SPOILER, winner = None, current_position = 9,
                       initial_position = 1, final_position = 10, max_move = 2\<rparr> 2)
     = Inl (AssertionError ''Illegal move'')"
    by (simp add: perform_move_def)
  from perform_move_atomic [OF h] h show ?thesis by simp
qed

section \<open>One pass of the backward induction\<close>

lemma set_range_py [simp]: "set (range_py a b) = {a..<b}"
  by (auto simp add: range_py_def)

lemma distinct_range_py [simp]: "distinct (range_py a b)"
  by (simp add: range_py_def)

lemma or_empty_simps [simp]: "or_empty None = []" "or_empty (Some xs) = xs"
  by (simp_all add: or_empty_def)

lemma all_winning_loop_iff: "all_winning_loop ws ps \<longleftrightarrow> set ps \<subseteq> ws"
  by (induction ps) auto

lemma all_winning_iff:
  "all_winning g ws p \<longleftrightarrow> {p + 1..p + max_move g} \<subseteq> ws"
  by (auto simp add: all_winning_def all_winning_loop_iff)

lemma found_empty [simp]: "found g ws {} = {}"
  by (simp add: found_def)

lemma found_insert:
  "found g ws (insert p os) =
     (if losing g ws p then {max (initial_position g) (p - max_move g)..<p} else {}) \<union> found g ws os"
  by (auto simp add: found_def)

lemma found_Un: "found g ws (A \<union> B) = found g ws A \<union> found g ws B"
  by (auto simp add: found_def)

lemma fold_visit_opponent:
  "fold (visit_opponent g ws) os (new, wm, upd) =
     (new \<union> found g ws (set os), record_moves g ws os wm,
      upd \<or> (\<exists>p\<in>set os. losing g ws p))"
proof (induction os arbitrary: new wm upd)
  case Nil
  show ?case by (simp add: record_moves_def)
next
  case (Cons p os)
  show ?case
  proof (cases "losing g ws p")
    case True
    then have "visit_opponent g ws p (new, wm, upd) =
        (new \<union> {max (initial_position g) (p - max_move g)..<p},
         add_moves p (range_py (p - max_move g) p) wm, True)"
      by (simp add: visit_opponent_def losing_def)
    with True show ?thesis
      by (simp add: Cons.IH found_insert record_moves_def Un_assoc)
  next
    case False
    then have "visit_opponent g ws p (new, wm, upd) = (new, wm, upd)"
      by (auto simp add: visit_opponent_def losing_def)
    with False show ?thesis
      by (simp add: Cons.IH found_insert record_moves_def)
  qed
qed

lemma record_moves_append:
  "record_moves g ws (xs @ ys) wm = record_moves g ws ys (record_moves g ws xs wm)"
  by (simp add: record_moves_def)

lemma fold_visit_previous:
  "fold (visit_previous g ws) ps (new, wm, upd) =
     (new \<union> found g ws (set (scanned g ps)), record_moves g ws (scanned g ps) wm,
      upd \<or> (\<exists>p\<in>set (scanned g ps). losing g ws p))"
proof (induction ps arbitrary: new wm upd)
  case Nil
  show ?case by (simp add: scanned_def record_moves_def)
next
  case (Cons i ps)
  have sc: "scanned g (i # ps) =
      range_py (max (initial_position g) (i - max_move g)) i @ scanned g ps"
    by (simp add: scanned_def)
  have one: "visit_previous g ws i (new, wm, upd) =
      (new \<union> found g ws {max (initial_position g) (i - max_move g)..<i},
       record_moves g ws (range_py (max (initial_position g) (i - max_move g)) i) wm,
       upd \<or> (\<exists>p\<in>{max (initial_position g) (i - max_move g)..<i}. losing g ws p))"
    by (simp add: visit_previous_def fold_visit_opponent)
  have "fold (visit_previous g ws) (i # ps) (new, wm, upd) =
      fold (visit_previous g ws) ps (visit_previous g ws i (new, wm, upd))"
    by simp
  also have "\<dots> =
      (new \<union> found g ws {max (initial_position g) (i - max_move g)..<i}
         \<union> found g ws (set (scanned g ps)),
       record_moves g ws (scanned g ps)
         (record_moves g ws (range_py (max (initial_position g) (i - max_move g)) i) wm),
       (upd \<or> (\<exists>p\<in>{max (initial_position g) (i - max_move g)..<i}. losing g ws p))
         \<or> (\<exists>p\<in>set (scanned g ps). losing g ws p))"
    unfolding one by (rule Cons.IH)
  also have "\<dots> =
      (new \<union> found g ws (set (scanned g (i # ps))),
       record_moves g ws (scanned g (i # ps)) wm,
       upd \<or> (\<exists>p\<in>set (scanned g (i # ps)). losing g ws p))"
    unfolding sc by (auto simp add: record_moves_append found_Un)
  finally show ?case .
qed

lemma scan_pass_eq:
  "scan_pass iter g prev ws wm =
     (found g ws (set (scanned g (iter prev))),
      record_moves g ws (scanned g (iter prev)) wm,
      \<exists>p\<in>set (scanned g (iter prev)). losing g ws p)"
  by (simp add: scan_pass_def fold_visit_previous)

lemma set_scanned:
  "set (scanned g ps) = {p. \<exists>i\<in>set ps. max (initial_position g) (i - max_move g) \<le> p \<and> p < i}"
  by (auto simp add: scanned_def)

section \<open>Termination of the loop and a rule for its invariants\<close>

lemma found_bounds:
  assumes "x \<in> found g ws (set (scanned g ps))"
  shows "\<exists>p i. i \<in> set ps \<and> losing g ws p \<and> initial_position g \<le> x
           \<and> p - max_move g \<le> x \<and> x < p \<and> initial_position g \<le> p
           \<and> i - max_move g \<le> p \<and> p < i"
  using assms by (auto simp add: found_def set_scanned)

lemma scan_pass_shrinks:
  assumes iter: "set (iter prev) = prev"
    and bound: "prev \<subseteq> {..<b}"
    and pass: "scan_pass iter g prev ws wm = (new, wm', upd)"
  shows "new \<subseteq> {initial_position g..<b - 1}"
    and "upd \<Longrightarrow> initial_position g < b"
proof -
  from pass have new: "new = found g ws (set (scanned g (iter prev)))"
    and upd: "upd = (\<exists>p\<in>set (scanned g (iter prev)). losing g ws p)"
    by (simp_all add: scan_pass_eq)
  show "new \<subseteq> {initial_position g..<b - 1}"
  proof
    fix x assume "x \<in> new"
    with new obtain p i where "i \<in> set (iter prev)" "initial_position g \<le> x" "x < p" "p < i"
      using found_bounds by blast
    with iter bound show "x \<in> {initial_position g..<b - 1}" by auto
  qed
  show "initial_position g < b" if upd
  proof -
    from that upd obtain p where "p \<in> set (scanned g (iter prev))" by blast
    then obtain i where "i \<in> set (iter prev)" "initial_position g \<le> p" "p < i"
      by (auto simp add: set_scanned)
    with iter bound show ?thesis by auto
  qed
qed

lemma backward_induction_bounded:
  assumes iter: "\<And>S. finite S \<Longrightarrow> set (iter S) = S"
    and step: "\<And>prev ws wm new wm' upd. finite prev \<Longrightarrow> I prev ws wm \<Longrightarrow>
        scan_pass iter g prev ws wm = (new, wm', upd) \<Longrightarrow> I new (ws \<union> new) wm'"
  shows "finite prev \<Longrightarrow> prev \<subseteq> {..<b} \<Longrightarrow> I prev ws wm \<Longrightarrow>
    \<exists>ws' wm' prev'. backward_induction iter g prev ws wm = Some (ws', wm') \<and> I prev' ws' wm'"
proof (induction "nat (b - initial_position g)" arbitrary: b prev ws wm rule: less_induct)
  case less
  obtain new wm' upd where pass: "scan_pass iter g prev ws wm = (new, wm', upd)"
    by (cases "scan_pass iter g prev ws wm")
  from step [OF less.prems(1) less.prems(3) pass] have I': "I new (ws \<union> new) wm'" .
  from iter [OF less.prems(1)] have it: "set (iter prev) = prev" .
  show ?case
  proof (cases upd)
    case False
    have "backward_induction iter g prev ws wm = Some (ws \<union> new, wm')"
      by (subst backward_induction.simps) (simp add: pass False)
    with I' show ?thesis by blast
  next
    case True
    from scan_pass_shrinks [OF it less.prems(2) pass] True
    have sub: "new \<subseteq> {initial_position g..<b - 1}" and pos: "initial_position g < b"
      by simp_all
    from sub have fin: "finite new"
      by (rule finite_subset) simp
    from sub have bnd: "new \<subseteq> {..<b - 1}" by auto
    from pos have "nat (b - 1 - initial_position g) < nat (b - initial_position g)" by simp
    from less.hyps [OF this fin bnd I']
    obtain ws' wm'' prev' where
      "backward_induction iter g new (ws \<union> new) wm' = Some (ws', wm'')" "I prev' ws' wm''"
      by blast
    moreover have "backward_induction iter g prev ws wm =
        backward_induction iter g new (ws \<union> new) wm'"
      by (subst backward_induction.simps) (simp add: pass True)
    ultimately show ?thesis by auto
  qed
qed

lemma finite_bounded_above:
  assumes "finite (S :: int set)"
  shows "S \<subseteq> {..<Max (insert 0 S) + 1}"
proof
  fix x assume "x \<in> S"
  with assms have "x \<le> Max (insert 0 S)" by simp
  then show "x \<in> {..<Max (insert 0 S) + 1}" by simp
qed

lemma backward_induction_rule:
  assumes iter: "\<And>S. finite S \<Longrightarrow> set (iter S) = S"
    and step: "\<And>prev ws wm new wm' upd. finite prev \<Longrightarrow> I prev ws wm \<Longrightarrow>
        scan_pass iter g prev ws wm = (new, wm', upd) \<Longrightarrow> I new (ws \<union> new) wm'"
    and fin: "finite prev" and init: "I prev ws wm"
  shows "\<exists>ws' wm' prev'. backward_induction iter g prev ws wm = Some (ws', wm') \<and> I prev' ws' wm'"
proof (rule backward_induction_bounded
    [where I = I and iter = iter and g = g and b = "Max (insert 0 prev) + 1"])
  show "set (iter S) = S" if "finite S" for S
    using that by (rule iter)
  show "I new (ws \<union> new) wm'"
    if "finite prev" "I prev ws wm" "scan_pass iter g prev ws wm = (new, wm', upd)"
    for prev ws wm new wm' upd
    using that by (rule step)
  show "finite prev" by (rule fin)
  show "prev \<subseteq> {..<Max (insert 0 prev) + 1}"
    using fin by (rule finite_bounded_above)
  show "I prev ws wm" by (rule init)
qed

lemma backward_induction_order_bounded:
  assumes iter: "\<And>S. finite S \<Longrightarrow> set (iter S) = S"
    and iter': "\<And>S. finite S \<Longrightarrow> set (iter' S) = S"
  shows "finite prev \<Longrightarrow> prev \<subseteq> {..<b} \<Longrightarrow>
    map_option fst (backward_induction iter g prev ws wm) =
    map_option fst (backward_induction iter' g prev ws wm2)"
proof (induction "nat (b - initial_position g)" arbitrary: b prev ws wm wm2 rule: less_induct)
  case less
  from iter [OF less.prems(1)] iter' [OF less.prems(1)]
  have it: "set (iter prev) = prev" "set (iter' prev) = prev" .
  define new where "new = found g ws (set (scanned g (iter prev)))"
  define upd where "upd = (\<exists>p\<in>set (scanned g (iter prev)). losing g ws p)"
  have pass: "scan_pass iter g prev ws wm =
      (new, record_moves g ws (scanned g (iter prev)) wm, upd)"
    by (simp add: scan_pass_eq new_def upd_def)
  have pass': "scan_pass iter' g prev ws wm2 =
      (new, record_moves g ws (scanned g (iter' prev)) wm2, upd)"
    by (simp add: scan_pass_eq new_def upd_def set_scanned it)
  show ?case
  proof (cases upd)
    case False
    show ?thesis
      by (subst backward_induction.simps, subst (2) backward_induction.simps)
        (simp add: pass pass' False)
  next
    case True
    from scan_pass_shrinks [OF it(1) less.prems(2) pass] True
    have sub: "new \<subseteq> {initial_position g..<b - 1}" and pos: "initial_position g < b"
      by simp_all
    from sub have fin: "finite new"
      by (rule finite_subset) simp
    from sub have bnd: "new \<subseteq> {..<b - 1}" by auto
    from pos have "nat (b - 1 - initial_position g) < nat (b - initial_position g)" by simp
    from less.hyps [OF this fin bnd]
    have "map_option fst (backward_induction iter g new (ws \<union> new)
              (record_moves g ws (scanned g (iter prev)) wm)) =
          map_option fst (backward_induction iter' g new (ws \<union> new)
              (record_moves g ws (scanned g (iter' prev)) wm2))" .
    then show ?thesis
      by (subst backward_induction.simps, subst (2) backward_induction.simps)
        (simp add: pass pass' True)
  qed
qed

lemma backward_induction_order:
  assumes iter: "\<And>S. finite S \<Longrightarrow> set (iter S) = S"
    and iter': "\<And>S. finite S \<Longrightarrow> set (iter' S) = S"
    and fin: "finite prev"
  shows "map_option fst (backward_induction iter g prev ws wm) =
    map_option fst (backward_induction iter' g prev ws wm2)"
proof (rule backward_induction_order_bounded [where b = "Max (insert 0 prev) + 1"])
  show "set (iter S) = S" if "finite S" for S
    using that by (rule iter)
  show "set (iter' S) = S" if "finite S" for S
    using that by (rule iter')
  show "finite prev" by (rule fin)
  show "prev \<subseteq> {..<Max (insert 0 prev) + 1}"
    using fin by (rule finite_bounded_above)
qed

section \<open>The invariant of the loop\<close>

lemma add_moves_apply:
  "distinct xs \<Longrightarrow>
   add_moves q xs wm x = (if x \<in> set xs then Some (or_empty (wm x) @ [q]) else wm x)"
  by (induction xs arbitrary: wm) auto

lemma record_moves_Cons:
  "record_moves g ws (q # os) wm =
     record_moves g ws os
       (if losing g ws q then add_moves q (range_py (q - max_move g) q) wm else wm)"
  by (simp add: record_moves_def)

lemma record_moves_pointwise:
  assumes "P (wm x)"
    and "\<And>q r. q \<in> set os \<Longrightarrow> losing g ws q \<Longrightarrow> q - max_move g \<le> x \<Longrightarrow> x < q \<Longrightarrow> P r
           \<Longrightarrow> P (Some (or_empty r @ [q]))"
  shows "P (record_moves g ws os wm x)"
  using assms
proof (induction os arbitrary: wm)
  case Nil
  then show ?case by (simp add: record_moves_def)
next
  case (Cons q os)
  let ?wm = "if losing g ws q then add_moves q (range_py (q - max_move g) q) wm else wm"
  have "P (?wm x)"
    using Cons.prems(1) Cons.prems(2) [of q "wm x"]
    by (auto simp add: add_moves_apply)
  then have "P (record_moves g ws os ?wm x)"
    by (rule Cons.IH) (simp add: Cons.prems(2))
  then show ?case by (simp only: record_moves_Cons)
qed

lemma record_moves_key:
  assumes "q \<in> set os" and "losing g ws q" and "q - max_move g \<le> x" and "x < q"
  shows "record_moves g ws os wm x \<noteq> None"
proof -
  from assms(1) obtain ys zs where os: "os = ys @ q # zs"
    by (auto dest: split_list)
  let ?m = "record_moves g ws ys wm"
  let ?m' = "add_moves q (range_py (q - max_move g) q) ?m"
  have "?m' x \<noteq> None"
    using assms(3,4) by (simp add: add_moves_apply)
  then have "record_moves g ws zs ?m' x \<noteq> None"
    by (rule record_moves_pointwise) simp
  then show ?thesis
    using assms(2) by (simp add: os record_moves_append record_moves_Cons)
qed

lemma losing_iff:
  "losing g ws p \<longleftrightarrow>
     initial_position g \<le> p \<and> p \<notin> ws \<and> {p + 1..p + max_move g} \<subseteq> ws"
  by (auto simp add: losing_def all_winning_iff)

lemma strategy_inv_step:
  assumes iter: "set (iter prev) = prev"
    and inv: "strategy_inv g prev ws wm"
    and pass: "scan_pass iter g prev ws wm = (new, wm', upd)"
  shows "strategy_inv g new (ws \<union> new) wm'"
proof -
  let ?os = "scanned g (iter prev)"
  from pass have new: "new = found g ws (set ?os)" and wm': "wm' = record_moves g ws ?os wm"
    by (simp_all add: scan_pass_eq)
  from inv have prev: "prev \<subseteq> ws" and ws: "ws \<subseteq> {initial_position g..<final_position g}"
    and base: "base_window g \<subseteq> ws"
    and seeded: "\<And>p. p \<in> base_window g \<Longrightarrow> wm p = Some [final_position g]"
    and keys: "\<And>p. p \<in> ws \<Longrightarrow> wm p \<noteq> None"
    and ok: "\<And>x. moves_ok g x (wm x)"
    by (auto simp add: strategy_inv_def)
  have scanned: "initial_position g \<le> q \<and> q < final_position g - 1"
    if "q \<in> set ?os" for q
  proof -
    from that obtain i where "i \<in> set (iter prev)" "initial_position g \<le> q" "q < i"
      by (auto simp add: set_scanned)
    with iter prev ws show ?thesis by auto
  qed
  have new_sub: "new \<subseteq> {initial_position g..<final_position g}"
  proof
    fix x assume "x \<in> new"
    with new obtain q where "q \<in> set ?os" "initial_position g \<le> x" "x < q"
      by (auto simp add: found_def)
    with scanned [of q] show "x \<in> {initial_position g..<final_position g}" by simp
  qed
  have new_key: "wm' x \<noteq> None" if "x \<in> new" for x
  proof -
    from that new obtain q where "q \<in> set ?os" "losing g ws q" "q - max_move g \<le> x" "x < q"
      by (auto simp add: found_def)
    then show ?thesis unfolding wm' by (rule record_moves_key)
  qed
  have old_key: "wm' x \<noteq> None" if "x \<in> ws" for x
    unfolding wm' by (rule record_moves_pointwise) (simp_all add: keys that)
  have seeded': "wm' p = Some [final_position g]" if "p \<in> base_window g" for p
    unfolding wm'
  proof (rule record_moves_pointwise)
    show "wm p = Some [final_position g]" using that by (rule seeded)
  next
    fix q r
    assume q: "q \<in> set ?os" "losing g ws q" "q - max_move g \<le> p" "p < q"
    from scanned [OF q(1)] q(4) that have "q \<in> base_window g"
      by (simp add: base_window_def)
    with base q(2) have False by (auto simp add: losing_iff)
    then show "Some (or_empty r @ [q]) = Some [final_position g]" ..
  qed
  have ok': "moves_ok g x (wm' x)" for x
    unfolding wm'
  proof (rule record_moves_pointwise)
    show "moves_ok g x (wm x)" by (rule ok)
  next
    fix q r
    assume q: "q \<in> set ?os" "losing g ws q" "q - max_move g \<le> x" "x < q"
      and r: "moves_ok g x r"
    from scanned [OF q(1)] have "q \<le> final_position g" by simp
    with q(3,4) r show "moves_ok g x (Some (or_empty r @ [q]))"
      by (cases r) (simp_all add: moves_ok_def)
  qed
  show ?thesis
    unfolding strategy_inv_def
    using ws new_sub base seeded' new_key old_key ok' by auto
qed

lemma strategy_inv_initial:
  "strategy_inv g (base_window g) (base_window g)
     (\<lambda>x. if x \<in> base_window g then Some [final_position g] else None)"
  by (auto simp add: strategy_inv_def base_window_def moves_ok_def)

lemma backward_induction_inv:
  assumes iter: "\<forall>S. finite S \<longrightarrow> set (iter S) = S"
  shows "\<exists>ws wm prev.
     backward_induction iter g (base_window g) (base_window g)
       (\<lambda>x. if x \<in> base_window g then Some [final_position g] else None) = Some (ws, wm)
     \<and> strategy_inv g prev ws wm"
proof (rule backward_induction_rule [where I = "\<lambda>prev ws wm. strategy_inv g prev ws wm"])
  show "set (iter S) = S" if "finite S" for S
    using that iter by simp
  show "strategy_inv g new (ws \<union> new) wm'"
    if "finite prev" "strategy_inv g prev ws wm" "scan_pass iter g prev ws wm = (new, wm', upd)"
    for prev ws wm new wm' upd
  proof -
    from that(1) iter have "set (iter prev) = prev" by simp
    from this that(2,3) show ?thesis by (rule strategy_inv_step)
  qed
  show "finite (base_window g)" by (simp add: base_window_def)
  show "strategy_inv g (base_window g) (base_window g)
     (\<lambda>x. if x \<in> base_window g then Some [final_position g] else None)"
    by (rule strategy_inv_initial)
qed

lemma SpoilerBot_init_inv:
  assumes iter: "\<forall>S. finite S \<longrightarrow> set (iter S) = S" and i: "1 \<le> i"
  shows "\<exists>sb prev. SpoilerBot_init iter day month year i mode = Some (Inr sb)
     \<and> game sb = \<lparr>next_player = DUPLICATOR, winner = None, current_position = i,
                    initial_position = i, final_position = day + month + year,
                    max_move = day + month\<rparr>
     \<and> strategy_inv (game sb) prev (winning_strategy sb) (winning_moves sb)"
proof -
  let ?g = "\<lparr>next_player = DUPLICATOR, winner = None, current_position = i,
             initial_position = i, final_position = day + month + year,
             max_move = day + month\<rparr>"
  from i have g: "Game_init day month year i = Inr ?g"
    by (simp add: Game_init_def)
  have base: "set (range_py (max (final_position ?g - max_move ?g) i) (final_position ?g))
      = base_window ?g"
    by (simp add: base_window_def)
  from backward_induction_inv [OF iter, of ?g] obtain ws wm prev where
    run: "backward_induction iter ?g (base_window ?g) (base_window ?g)
       (\<lambda>x. if x \<in> base_window ?g then Some [final_position ?g] else None) = Some (ws, wm)"
    and inv: "strategy_inv ?g prev ws wm"
    by blast
  have "SpoilerBot_init iter day month year i mode =
      Some (Inr \<lparr>game = ?g, play_mode = mode, winning_strategy = ws, winning_moves = wm\<rparr>)"
    unfolding SpoilerBot_init_def g find_winning_strategy_def
    by (simp only: sum.case Let_def base SpoilerBot.simps run option.map prod.case)
  with inv show ?thesis by auto
qed

section \<open>Properties of the strategy\<close>

lemma fold_max_in: "fold max xs (x::int) \<in> set (x # xs)"
proof (induction xs arbitrary: x)
  case Nil
  show ?case by simp
next
  case (Cons y ys)
  from Cons.IH [of "max y x"] show ?case
    by (auto simp add: max_def split: if_splits)
qed

lemma max_py_in:
  assumes "r = Some l" and "l \<noteq> []"
  shows "\<exists>m. max_py r = Inr m \<and> m \<in> set l"
proof (cases l)
  case Nil
  with assms(2) show ?thesis by simp
next
  case (Cons x xs)
  with assms(1) fold_max_in [of xs x] show ?thesis
    by (simp add: max_py_def)
qed

lemma pick_smart_move_inv:
  assumes inv: "strategy_inv g prev (winning_strategy sb) (winning_moves sb)"
    and g': "max_move g' = max_move g" "final_position g' = final_position g"
  shows "(current_position g' \<in> winning_strategy sb \<longrightarrow>
            (\<exists>d. pick_smart_move (sb\<lparr>game := g'\<rparr>) = Inr (Some d) \<and> 1 \<le> d \<and> d \<le> max_move g'
                \<and> current_position g' + d \<le> final_position g'))
       \<and> (current_position g' \<notin> winning_strategy sb \<longrightarrow>
            pick_smart_move (sb\<lparr>game := g'\<rparr>) = Inr None)"
proof (cases "current_position g' \<in> winning_strategy sb")
  case False
  then show ?thesis by (simp add: pick_smart_move_def)
next
  case True
  let ?p = "current_position g'"
  from inv True obtain l where l: "winning_moves sb ?p = Some l"
    by (auto simp add: strategy_inv_def)
  from inv have "moves_ok g ?p (winning_moves sb ?p)"
    by (simp add: strategy_inv_def)
  with l have ne: "l \<noteq> []"
    and vs: "\<And>v. v \<in> set l \<Longrightarrow> ?p < v \<and> v \<le> ?p + max_move g \<and> v \<le> final_position g"
    by (auto simp add: moves_ok_def list_all_iff)
  from max_py_in [OF l ne] obtain m where m: "max_py (winning_moves sb ?p) = Inr m" "m \<in> set l"
    by blast
  from vs [OF m(2)] have "?p < m" "m \<le> ?p + max_move g'" "m \<le> final_position g'"
    by (simp_all add: g')
  with True m(1) show ?thesis
    by (simp add: pick_smart_move_def Let_def)
qed

text \<open>
  Claim C2: for every day, month, year and initial position with
  \<open>1 \<le> initial_position < final_position\<close> and \<open>max_move \<ge> 1\<close>, the construction of the
  bot returns (the loop of \<open>find_winning_strategy\<close> ends), and every position in
  \<open>winning_strategy\<close> is at least the initial position and below the final position.
  This holds for every order in which the sets are enumerated.
\<close>

theorem construction_terminates:
  assumes "\<forall>S. finite S \<longrightarrow> set (iter S) = S"
    and "1 \<le> i" and "i < day + month + year" and "1 \<le> day + month"
  shows "\<exists>sb. SpoilerBot_init iter day month year i mode = Some (Inr sb)
           \<and> winning_strategy sb \<subseteq> {i..<day + month + year}"
proof -
  from SpoilerBot_init_inv [OF assms(1,2), of day month year mode]
  obtain sb prev where "SpoilerBot_init iter day month year i mode = Some (Inr sb)"
    and "initial_position (game sb) = i" "final_position (game sb) = day + month + year"
    and "strategy_inv (game sb) prev (winning_strategy sb) (winning_moves sb)"
    by auto
  then show ?thesis by (auto simp add: strategy_inv_def)
qed

theorem construction_terminates_witness:
  "\<exists>sb. SpoilerBot_init sorted_list_of_set 1 1 8 1 Smart_mode = Some (Inr sb)
           \<and> winning_strategy sb \<subseteq> {1..<10}"
  using construction_terminates [of sorted_list_of_set 1 1 1 8 Smart_mode]
  by simp

text \<open>
  Claim C3: after the construction of the bot, every position \<open>p\<close> with
  \<open>max (final_position - max_move) initial_position \<le> p < final_position\<close> is in
  \<open>winning_strategy\<close>, and its entry in \<open>winning_moves\<close> is the list that holds the final
  position and nothing else.
\<close>

theorem base_window_seeded:
  assumes "\<forall>S. finite S \<longrightarrow> set (iter S) = S" and "1 \<le> i"
  shows "\<exists>sb. SpoilerBot_init iter day month year i mode = Some (Inr sb)
           \<and> (\<forall>p. max (day + month + year - (day + month)) i \<le> p \<and> p < day + month + year
                 \<longrightarrow> p \<in> winning_strategy sb
                     \<and> winning_moves sb p = Some [day + month + year])"
proof -
  from SpoilerBot_init_inv [OF assms(1,2), of day month year mode]
  obtain sb prev where sb: "SpoilerBot_init iter day month year i mode = Some (Inr sb)"
    and g: "initial_position (game sb) = i" "final_position (game sb) = day + month + year"
      "max_move (game sb) = day + month"
    and inv: "strategy_inv (game sb) prev (winning_strategy sb) (winning_moves sb)"
    by auto
  have "p \<in> winning_strategy sb \<and> winning_moves sb p = Some [day + month + year]"
    if "max (day + month + year - (day + month)) i \<le> p" "p < day + month + year" for p
  proof -
    from that g have "p \<in> base_window (game sb)"
      by (simp add: base_window_def)
    with inv g show ?thesis by (auto simp add: strategy_inv_def)
  qed
  with sb show ?thesis by blast
qed

theorem base_window_seeded_witness:
  "\<exists>sb. SpoilerBot_init sorted_list_of_set 1 1 8 1 Smart_mode = Some (Inr sb)
           \<and> 8 \<in> winning_strategy sb \<and> winning_moves sb 8 = Some [10]
           \<and> 9 \<in> winning_strategy sb \<and> winning_moves sb 9 = Some [10]"
proof -
  from base_window_seeded [of sorted_list_of_set 1 1 1 8 Smart_mode]
  obtain sb where sb: "SpoilerBot_init sorted_list_of_set 1 1 8 1 Smart_mode = Some (Inr sb)"
    and all: "\<forall>p. max (1 + 1 + 8 - (1 + 1)) 1 \<le> p \<and> p < 1 + 1 + 8
                 \<longrightarrow> p \<in> winning_strategy sb \<and> winning_moves sb p = Some [1 + 1 + 8]"
    by auto
  from all [rule_format, of 8] all [rule_format, of 9] sb show ?thesis
    by simp
qed

text \<open>
  Claim C5: after the construction of the bot, at every state of the game (any current
  position, with the bounds of the game unchanged), a move \<open>d\<close> returned by
  \<open>pick_smart_move\<close> satisfies \<open>1 \<le> d \<le> max_move\<close> and does not pass the final position;
  at a current position outside \<open>winning_strategy\<close> the result is \<open>None\<close>; and
  \<open>pick_smart_move\<close> raises no exception.
\<close>

theorem pick_smart_move_legal:
  assumes "\<forall>S. finite S \<longrightarrow> set (iter S) = S" and "1 \<le> i"
  shows "\<exists>sb. SpoilerBot_init iter day month year i mode = Some (Inr sb)
           \<and> (\<forall>g'. max_move g' = day + month \<and> final_position g' = day + month + year \<longrightarrow>
                (\<forall>d. pick_smart_move (sb\<lparr>game := g'\<rparr>) = Inr (Some d) \<longrightarrow>
                      1 \<le> d \<and> d \<le> max_move g'
                      \<and> current_position g' + d \<le> final_position g')
                \<and> (current_position g' \<notin> winning_strategy sb \<longrightarrow>
                      pick_smart_move (sb\<lparr>game := g'\<rparr>) = Inr None)
                \<and> (\<forall>e. pick_smart_move (sb\<lparr>game := g'\<rparr>) \<noteq> Inl e))"
proof -
  from SpoilerBot_init_inv [OF assms(1,2), of day month year mode]
  obtain sb prev where sb: "SpoilerBot_init iter day month year i mode = Some (Inr sb)"
    and g: "final_position (game sb) = day + month + year" "max_move (game sb) = day + month"
    and inv: "strategy_inv (game sb) prev (winning_strategy sb) (winning_moves sb)"
    by auto
  have "(\<forall>d. pick_smart_move (sb\<lparr>game := g'\<rparr>) = Inr (Some d) \<longrightarrow>
            1 \<le> d \<and> d \<le> max_move g' \<and> current_position g' + d \<le> final_position g')
        \<and> (current_position g' \<notin> winning_strategy sb \<longrightarrow>
              pick_smart_move (sb\<lparr>game := g'\<rparr>) = Inr None)
        \<and> (\<forall>e. pick_smart_move (sb\<lparr>game := g'\<rparr>) \<noteq> Inl e)"
    if "max_move g' = day + month \<and> final_position g' = day + month + year" for g'
  proof -
    from that g have "max_move g' = max_move (game sb)"
      "final_position g' = final_position (game sb)" by simp_all
    from pick_smart_move_inv [OF inv this] show ?thesis
      by (cases "current_position g' \<in> winning_strategy sb") auto
  qed
  with sb show ?thesis by blast
qed

theorem pick_smart_move_legal_witness:
  "\<exists>sb. SpoilerBot_init sorted_list_of_set 1 1 8 1 Smart_mode = Some (Inr sb)
     \<and> pick_smart_move (sb\<lparr>game := \<lparr>next_player = SPOILER, winner = None,
          current_position = 5, initial_position = 1, final_position = 10, max_move = 2\<rparr>\<rparr>)
         = Inr (Some 2)
     \<and> (1::int) \<le> 2 \<and> (2::int) \<le> 2 \<and> (5::int) + 2 \<le> 10
     \<and> 4 \<notin> winning_strategy sb
     \<and> pick_smart_move (sb\<lparr>game := \<lparr>next_player = SPOILER, winner = None,
          current_position = 4, initial_position = 1, final_position = 10, max_move = 2\<rparr>\<rparr>)
         = Inr None"
proof -
  let ?g5 = "\<lparr>next_player = SPOILER, winner = None,
          current_position = 5, initial_position = 1, final_position = 10, max_move = 2\<rparr>"
  let ?g4 = "\<lparr>next_player = SPOILER, winner = None,
          current_position = 4, initial_position = 1, final_position = 10, max_move = 2\<rparr>"
  have it: "\<forall>S::int set. finite S \<longrightarrow> set (sorted_list_of_set S) = S" by simp
  have ev: "map_option (map_sum id (\<lambda>sb. (pick_smart_move (sb\<lparr>game := ?g5\<rparr>),
                4 \<in> winning_strategy sb)))
      (SpoilerBot_init sorted_list_of_set 1 1 8 1 Smart_mode) = Some (Inr (Inr (Some 2), False))"
    by code_simp
  from pick_smart_move_legal [OF it, of 1 1 1 8 Smart_mode]
  obtain sb where sb: "SpoilerBot_init sorted_list_of_set 1 1 8 1 Smart_mode = Some (Inr sb)"
    and all: "\<And>g'. max_move g' = 1 + 1 \<and> final_position g' = 1 + 1 + 8 \<Longrightarrow>
                (\<forall>d. pick_smart_move (sb\<lparr>game := g'\<rparr>) = Inr (Some d) \<longrightarrow>
                      1 \<le> d \<and> d \<le> max_move g'
                      \<and> current_position g' + d \<le> final_position g')
                \<and> (current_position g' \<notin> winning_strategy sb \<longrightarrow>
                      pick_smart_move (sb\<lparr>game := g'\<rparr>) = Inr None)
                \<and> (\<forall>e. pick_smart_move (sb\<lparr>game := g'\<rparr>) \<noteq> Inl e)"
    by auto
  from ev sb have p5: "pick_smart_move (sb\<lparr>game := ?g5\<rparr>) = Inr (Some 2)"
    and n4: "4 \<notin> winning_strategy sb"
    by simp_all
  from all [of ?g4] n4 have "pick_smart_move (sb\<lparr>game := ?g4\<rparr>) = Inr None"
    by simp
  with sb p5 n4 show ?thesis by simp
qed

text \<open>
  Claim C1, as the specification states it: for \<open>max_move = 2\<close>, final position 10 and
  initial position 1 the computed set is \<open>{8, 9, 7, 6, 4, 3, 1}\<close>. The code computes
  \<open>{2, 3, 5, 6, 8, 9}\<close>, the positions from which the player to move reaches the final
  position first; 7, 4 and 1 are the positions from which every move hands such a position
  to the opponent.
\<close>

theorem small_instance_differs:
  "map_option (map_sum id winning_strategy)
      (SpoilerBot_init sorted_list_of_set 1 1 8 1 Smart_mode) = Some (Inr {2, 3, 5, 6, 8, 9})
   \<and> {2, 3, 5, 6, 8, 9} \<noteq> ({8, 9, 7, 6, 4, 3, 1} :: int set)"
  by code_simp

text \<open>
  Claim C4: the keys of \<open>winning_moves\<close> are the positions in \<open>winning_strategy\<close>. Line 210
  cuts the new positions off at the initial position, line 212 enters moves for every
  \<open>x\<close> from \<open>opponent_position - max_move\<close> on. For the date of birth 1.1.1851 and the
  initial position 1850 the positions 1848 and 1849, below the initial position, get
  entries, and \<open>winning_strategy\<close> is \<open>{1851, 1852}\<close>.
\<close>

theorem moves_below_initial_position:
  "map_option (map_sum id (\<lambda>sb. (winning_strategy sb,
        map (winning_moves sb) [1847, 1848, 1849, 1850, 1851, 1852, 1853])))
     (SpoilerBot_init sorted_list_of_set 1 1 1851 1850 Smart_mode)
   = Some (Inr ({1851, 1852},
        [None, Some [1850, 1850], Some [1850, 1850], None, Some [1853], Some [1853], None]))"
  by code_simp

lemma SpoilerBot_init_eq:
  assumes "1 \<le> i"
    and "g = \<lparr>next_player = DUPLICATOR, winner = None, current_position = i,
              initial_position = i, final_position = day + month + year,
              max_move = day + month\<rparr>"
  shows "SpoilerBot_init iter day month year i mode =
      map_option (\<lambda>(ws, wm). Inr \<lparr>game = g, play_mode = mode, winning_strategy = ws,
          winning_moves = wm\<rparr>)
        (backward_induction iter g (base_window g) (base_window g)
           (\<lambda>x. if x \<in> base_window g then Some [final_position g] else None))"
proof -
  from assms have g: "Game_init day month year i = Inr g"
    by (simp add: Game_init_def)
  from assms(2)
  have base: "set (range_py (max (final_position g - max_move g) i) (final_position g))
      = base_window g"
    by (simp add: base_window_def)
  show ?thesis
    unfolding SpoilerBot_init_def g find_winning_strategy_def
    by (simp only: sum.case Let_def base SpoilerBot.simps)
      (simp add: option.map_comp comp_def split_def)
qed

text \<open>
  Claim C1, amended: for \<open>max_move = 2\<close>, final position 10 and initial position 1 the
  construction returns with \<open>winning_strategy = {2, 3, 5, 6, 8, 9}\<close>, for every order in
  which the sets are enumerated; the other positions from 1 to 9 are 1, 4 and 7.
\<close>

theorem small_instance_strategy:
  assumes iter: "\<forall>S. finite S \<longrightarrow> set (iter S) = S"
    and mm: "day + month = 2" and fp: "day + month + year = 10"
  shows "\<exists>sb. SpoilerBot_init iter day month year 1 mode = Some (Inr sb)
           \<and> winning_strategy sb = {2, 3, 5, 6, 8, 9}
           \<and> {1..<10} - winning_strategy sb = {1, 4, 7}"
proof -
  let ?g = "\<lparr>next_player = DUPLICATOR, winner = None, current_position = 1,
             initial_position = 1, final_position = 10, max_move = 2\<rparr>"
  let ?wm = "\<lambda>x. if x \<in> base_window ?g then Some [final_position ?g] else None"
  have init: "SpoilerBot_init iter day month year 1 mode =
      map_option (\<lambda>(ws, wm). Inr \<lparr>game = ?g, play_mode = mode, winning_strategy = ws,
          winning_moves = wm\<rparr>)
        (backward_induction iter ?g (base_window ?g) (base_window ?g) ?wm)"
    using mm fp by (intro SpoilerBot_init_eq) simp_all
  have "map_option fst (backward_induction iter ?g (base_window ?g) (base_window ?g) ?wm)
      = map_option fst
          (backward_induction sorted_list_of_set ?g (base_window ?g) (base_window ?g) ?wm)"
    by (rule backward_induction_order) (simp_all add: iter base_window_def)
  also have "\<dots> = Some {2, 3, 5, 6, 8, 9}"
    by code_simp
  finally obtain wm where
    "backward_induction iter ?g (base_window ?g) (base_window ?g) ?wm
       = Some ({2, 3, 5, 6, 8, 9}, wm)"
    by auto
  with init have "SpoilerBot_init iter day month year 1 mode =
      Some (Inr \<lparr>game = ?g, play_mode = mode, winning_strategy = {2, 3, 5, 6, 8, 9},
          winning_moves = wm\<rparr>)"
    by simp
  moreover have "{1..<10} - {2, 3, 5, 6, 8, 9} = ({1, 4, 7} :: int set)"
    by code_simp
  ultimately show ?thesis by simp
qed

theorem small_instance_strategy_witness:
  "\<exists>sb. SpoilerBot_init sorted_list_of_set 1 1 8 1 Smart_mode = Some (Inr sb)
           \<and> winning_strategy sb = {2, 3, 5, 6, 8, 9}
           \<and> {1..<10} - winning_strategy sb = {1, 4, 7}"
  using small_instance_strategy [of sorted_list_of_set 1 1 8 Smart_mode]
  by simp

end
